theory Spec2Isabelle
  imports Main "HOL-Library.Multiset"
begin

section \<open>Word counting by map, shuffle and reduce (map_reducer.py)\<close>

subsection \<open>Text\<close>

text \<open>
  A Python \<open>str\<close> is a sequence of Unicode code points. A code point is a natural
  number here, so that the whitespace of \<open>str.split\<close> beyond ASCII is part of the
  model. \<open>cps\<close> writes a text from an ASCII literal.
\<close>

type_synonym codepoint = nat
type_synonym pystr = "codepoint list"

definition cps :: "string \<Rightarrow> pystr" where
  "cps s = map of_char s"

text \<open>
  \<open>string.punctuation\<close>, in the order of the standard library's constant:
  \<^verbatim>\<open>!"#$%&'()*+,-./:;<=>?@[\]^_`{|}~\<close>
\<close>

definition punctuation :: "codepoint list" where
  "punctuation =
     [33, 34, 35, 36, 37, 38, 39, 40, 41, 42, 43, 44, 45, 46, 47,
      58, 59, 60, 61, 62, 63, 64,
      91, 92, 93, 94, 95, 96,
      123, 124, 125, 126]"

text \<open>
  The code points that \<open>str.split()\<close> without arguments treats as separators
  (\<open>str.isspace\<close>): tab to carriage return, the four ASCII separators, the space,
  NEL, the no-break space and the Unicode spaces and line separators.
\<close>

definition isspace :: "codepoint \<Rightarrow> bool" where
  "isspace c \<longleftrightarrow>
     (9 \<le> c \<and> c \<le> 13) \<or> (28 \<le> c \<and> c \<le> 32) \<or> c = 133 \<or> c = 160 \<or> c = 5760 \<or>
     (8192 \<le> c \<and> c \<le> 8202) \<or> c = 8232 \<or> c = 8233 \<or> c = 8239 \<or> c = 8287 \<or>
     c = 12288"

text \<open>
  \<open>str.lower\<close> is Python's Unicode lowercasing. Its case table is not part of the
  program, so the functions that call it take it as the parameter \<open>lower\<close>, and every
  result below holds for each such function. \<open>ascii_lower\<close> is what \<open>str.lower\<close>
  does on ASCII text; the evaluations on concrete texts use it.
\<close>

definition ascii_lower :: "pystr \<Rightarrow> pystr" where
  "ascii_lower s = map (\<lambda>c. if 65 \<le> c \<and> c \<le> 90 then c + 32 else c) s"

subsection \<open>remove_punctuation and str.split\<close>

text \<open>
  \<^verbatim>\<open>return text.translate(str.maketrans("", "", string.punctuation))\<close>
  The translation table deletes each character of \<open>string.punctuation\<close> and keeps
  every other character where it is.
\<close>

definition remove_punctuation :: "pystr \<Rightarrow> pystr" where
  "remove_punctuation text = filter (\<lambda>c. c \<notin> set punctuation) text"

text \<open>
  Splitting at the characters that satisfy \<open>sep\<close>: the words are the maximal runs of
  other characters. \<open>w\<close> is the word read so far.
\<close>

fun split_run :: "(codepoint \<Rightarrow> bool) \<Rightarrow> pystr \<Rightarrow> pystr \<Rightarrow> pystr list" where
  "split_run sep w [] = (if w = [] then [] else [w])"
| "split_run sep w (c # cs) =
     (if sep c then (if w = [] then split_run sep [] cs else w # split_run sep [] cs)
      else split_run sep (w @ [c]) cs)"

text \<open>\<open>text.split()\<close>: split at runs of whitespace, no empty words.\<close>

definition split :: "pystr \<Rightarrow> pystr list" where
  "split text = split_run isspace [] text"

text \<open>
  The first two lines of \<open>map_reduce\<close>:
  \<^verbatim>\<open>text = remove_punctuation(text); words = text.split()\<close>
\<close>

definition tokenize :: "pystr \<Rightarrow> pystr list" where
  "tokenize text = split (remove_punctuation text)"

text \<open>
  The reading of the tokenizer in which punctuation is a split boundary as whitespace
  is: every run of punctuation and whitespace characters separates two tokens.
\<close>

definition boundary_tokens :: "pystr \<Rightarrow> pystr list" where
  "boundary_tokens text = split_run (\<lambda>c. isspace c \<or> c \<in> set punctuation) [] text"

subsection \<open>Map, shuffle, reduce\<close>

text \<open>\<^verbatim>\<open>return word.lower(), 1\<close>\<close>

definition map_function :: "(pystr \<Rightarrow> pystr) \<Rightarrow> pystr \<Rightarrow> pystr \<times> int" where
  "map_function lower word = (lower word, 1)"

text \<open>
  A dictionary is an association list with distinct keys, in insertion order, as
  Python iterates it. \<open>shuffled[key].append(value)\<close> on a \<open>defaultdict(list)\<close>
  appends to the list of an existing key and inserts a new key, with a one-element
  list, at the end.
\<close>

fun shuffle_append :: "'k \<Rightarrow> 'v \<Rightarrow> ('k \<times> 'v list) list \<Rightarrow> ('k \<times> 'v list) list" where
  "shuffle_append key v [] = [(key, [v])]"
| "shuffle_append key v ((k, vs) # shuffled) =
     (if k = key then (k, vs @ [v]) # shuffled
      else (k, vs) # shuffle_append key v shuffled)"

text \<open>
  \<^verbatim>\<open>
  shuffled = defaultdict(list)
  for key, value in mapped_values:
      shuffled[key].append(value)
  return shuffled.items()
  \<close>
\<close>

definition shuffle_function :: "('k \<times> 'v) list \<Rightarrow> ('k \<times> 'v list) list" where
  "shuffle_function mapped_values =
     foldl (\<lambda>shuffled (key, v). shuffle_append key v shuffled) [] mapped_values"

text \<open>\<^verbatim>\<open>key, values = item; return key, sum(values)\<close>\<close>

definition reduce_function :: "'k \<times> int list \<Rightarrow> 'k \<times> int" where
  "reduce_function item = (case item of (key, vs) \<Rightarrow> (key, sum_list vs))"

text \<open>
  \<open>d[k] = v\<close>, and \<open>dict(pairs)\<close>, which stores the pairs one after the other: a key
  seen again keeps its place and takes the later value.
\<close>

fun dict_set :: "'k \<Rightarrow> 'v \<Rightarrow> ('k \<times> 'v) list \<Rightarrow> ('k \<times> 'v) list" where
  "dict_set key v [] = [(key, v)]"
| "dict_set key v ((k, u) # d) =
     (if k = key then (k, v) # d else (k, u) # dict_set key v d)"

definition dict :: "('k \<times> 'v) list \<Rightarrow> ('k \<times> 'v) list" where
  "dict pairs = foldl (\<lambda>d (key, v). dict_set key v d) [] pairs"

text \<open>
  \<^verbatim>\<open>
  text = remove_punctuation(text)
  words = text.split()
  with ThreadPoolExecutor() as executor:
      mapped_values = list(executor.map(map_function, words))
  shuffled_values = shuffle_function(mapped_values)
  with ThreadPoolExecutor() as executor:
      reduced_values = dict(executor.map(reduce_function, shuffled_values))
  return reduced_values
  \<close>
  \<open>executor.map\<close> yields the results in the order of its input, whatever the order
  in which the workers finish, so it is \<open>map\<close> here (\<open>map_reduce_pool\<close> below has the
  workers). The log line of \<open>map_reduce\<close> is recorded where \<open>main\<close> calls it.
\<close>

definition map_reduce :: "(pystr \<Rightarrow> pystr) \<Rightarrow> pystr \<Rightarrow> (pystr \<times> int) list" where
  "map_reduce lower text =
     (let words = split (remove_punctuation text);
          mapped_values = map (map_function lower) words;
          shuffled_values = shuffle_function mapped_values
      in dict (map reduce_function shuffled_values))"

subsection \<open>The worker pools\<close>

text \<open>
  \<open>ThreadPoolExecutor.map\<close> submits one task per element of its input. The workers
  finish the tasks in an order that the scheduler decides: \<open>sched\<close> lists the task
  numbers in the order of completion. Each finished task stores its result in the
  slot of its own number, and the results are read in the order of submission.
\<close>

fun run_pool :: "('a \<Rightarrow> 'b) \<Rightarrow> 'a list \<Rightarrow> nat list \<Rightarrow> 'b option list \<Rightarrow> 'b option list" where
  "run_pool f xs [] slots = slots"
| "run_pool f xs (i # sched) slots = run_pool f xs sched (slots[i := Some (f (xs ! i))])"

text \<open>Reading the results: \<open>None\<close> when a task has not finished (the reader would wait).\<close>

fun results :: "'b option list \<Rightarrow> 'b list option" where
  "results [] = Some []"
| "results (None # slots) = None"
| "results (Some y # slots) = (case results slots of None \<Rightarrow> None | Some ys \<Rightarrow> Some (y # ys))"

definition executor_map :: "nat list \<Rightarrow> ('a \<Rightarrow> 'b) \<Rightarrow> 'a list \<Rightarrow> 'b list option" where
  "executor_map sched f xs = results (run_pool f xs sched (replicate (length xs) None))"

text \<open>Every one of the \<open>n\<close> submitted tasks finishes, once.\<close>

definition complete_schedule :: "nat list \<Rightarrow> nat \<Rightarrow> bool" where
  "complete_schedule sched n \<longleftrightarrow> distinct sched \<and> set sched = {..<n}"

text \<open>\<open>map_reduce\<close> with the completion orders of its two pools.\<close>

definition map_reduce_pool ::
  "(pystr \<Rightarrow> pystr) \<Rightarrow> nat list \<Rightarrow> nat list \<Rightarrow> pystr \<Rightarrow> (pystr \<times> int) list option" where
  "map_reduce_pool lower sched1 sched2 text =
     (let words = split (remove_punctuation text)
      in case executor_map sched1 (map_function lower) words of
           None \<Rightarrow> None
         | Some mapped_values \<Rightarrow>
             (let shuffled_values = shuffle_function mapped_values
              in case executor_map sched2 reduce_function shuffled_values of
                   None \<Rightarrow> None
                 | Some reduced \<Rightarrow> Some (dict reduced)))"

subsection \<open>The most frequent words\<close>

text \<open>
  \<open>xs[:n]\<close>: the first \<open>n\<close> elements, and for a negative \<open>n\<close> all but the last \<open>-n\<close>.
\<close>

definition slice_to :: "int \<Rightarrow> 'a list \<Rightarrow> 'a list" where
  "slice_to n xs =
     (if n < 0 then take (nat (int (length xs) + n)) xs else take (nat n) xs)"

text \<open>
  \<^verbatim>\<open>sorted(word_counts.items(), key=lambda item: item[1], reverse=True)[:top_n]\<close>
  Python's sort is stable, also with \<open>reverse=True\<close>: entries of equal count keep the
  order of the dictionary. This is the stable ascending sort on the negated count.
\<close>

definition sorted_words :: "(pystr \<times> int) list \<Rightarrow> int \<Rightarrow> (pystr \<times> int) list" where
  "sorted_words word_counts top_n =
     slice_to top_n (sort_key (\<lambda>item. - snd item) word_counts)"

datatype py_error = ValueError

text \<open>
  \<^verbatim>\<open>words, counts = zip(*sorted_words)\<close>
  \<open>zip\<close> of no rows yields nothing, and unpacking nothing into two names raises
  \<open>ValueError\<close>; of one or more pairs it yields the keys and the counts.
\<close>

definition unzip_rows :: "('a \<times> 'b) list \<Rightarrow> py_error + ('a list \<times> 'b list)" where
  "unzip_rows rows = (if rows = [] then Inl ValueError else Inr (map fst rows, map snd rows))"

text \<open>
  What the program does to the outside, in order: the request, the log lines (with
  the values their format strings show) and the calls of the plotting library.
\<close>

datatype log_msg =
    Retrieved pystr       \<comment> \<open>Successfully retrieved text from (url)\<close>
  | RetrieveFailed pystr  \<comment> \<open>Failed to retrieve text: (e)\<close>
  | Completed             \<comment> \<open>MapReduce computation completed\<close>
  | Displayed int         \<comment> \<open>Displayed top (top_n) words graphically\<close>
  | ExecuteFailed         \<comment> \<open>Failed to execute MapReduce due to text retrieval failure.\<close>

datatype event =
    HttpGet pystr
  | LogInfo log_msg
  | LogError log_msg
  | Figure
  | Bar "pystr list" "int list"
  | Xlabel
  | Ylabel
  | Title int
  | Xticks
  | TightLayout
  | Show

text \<open>
  \<^verbatim>\<open>
  sorted_words = sorted(...)[:top_n]
  words, counts = zip(*sorted_words)
  plt.figure(figsize=(10, 6)); plt.bar(words, counts)
  plt.xlabel("Words"); plt.ylabel("Frequency")
  plt.title(f"Top {top_n} most frequent words")
  plt.xticks(rotation=45); plt.tight_layout(); plt.show()
  logging.info(f"Displayed top {top_n} words graphically")
  \<close>
  The result is the trace and \<open>Inl\<close> of the exception that left the function.
\<close>

definition visualize_top_words ::
  "(pystr \<times> int) list \<Rightarrow> int \<Rightarrow> event list \<times> (py_error + unit)" where
  "visualize_top_words word_counts top_n =
     (case unzip_rows (sorted_words word_counts top_n) of
        Inl e \<Rightarrow> ([], Inl e)
      | Inr (words, counts) \<Rightarrow>
          ([Figure, Bar words counts, Xlabel, Ylabel, Title top_n, Xticks, TightLayout,
            Show, LogInfo (Displayed top_n)], Inr ()))"

subsection \<open>Retrieval and the entry point\<close>

text \<open>
  What the two library calls in the \<open>try\<close> block of \<open>get_text\<close> do:
  \<open>requests.get\<close> raises a \<open>RequestException\<close>, or \<open>raise_for_status\<close> raises one
  (\<open>HTTPError\<close>, for an error status), or the response passes and has a text.
\<close>

datatype request_outcome = GetRaised pystr | StatusRaised pystr | Responded pystr

text \<open>
  \<^verbatim>\<open>
  try:
      response = requests.get(url)
      response.raise_for_status()
      logging.info(f"Successfully retrieved text from {url}")
      return response.text
  except requests.RequestException as e:
      logging.error(f"Failed to retrieve text: {e}")
      return None
  \<close>
\<close>

definition get_text :: "pystr \<Rightarrow> request_outcome \<Rightarrow> event list \<times> pystr option" where
  "get_text url outcome =
     (case outcome of
        GetRaised e \<Rightarrow> ([HttpGet url, LogError (RetrieveFailed e)], None)
      | StatusRaised e \<Rightarrow> ([HttpGet url, LogError (RetrieveFailed e)], None)
      | Responded body \<Rightarrow> ([HttpGet url, LogInfo (Retrieved url)], Some body))"

definition url :: pystr where
  "url = cps ''https://gutenberg.net.au/ebooks01/0100021.txt''"

text \<open>
  \<^verbatim>\<open>
  text = get_text(url)
  if text:
      word_counts = map_reduce(text)
      visualize_top_words(word_counts, top_n=11)
  else:
      logging.error("Failed to execute MapReduce due to text retrieval failure.")
  \<close>
  \<open>None\<close> and the empty string are the two values of \<open>text\<close> that are not true.
\<close>

definition main :: "(pystr \<Rightarrow> pystr) \<Rightarrow> request_outcome \<Rightarrow> event list \<times> (py_error + unit)" where
  "main lower outcome =
     (case get_text url outcome of
        (fetched, None) \<Rightarrow> (fetched @ [LogError ExecuteFailed], Inr ())
      | (fetched, Some text) \<Rightarrow>
          if text = [] then (fetched @ [LogError ExecuteFailed], Inr ())
          else
            (let word_counts = map_reduce lower text
             in case visualize_top_words word_counts 11 of
                  (shown, r) \<Rightarrow> (fetched @ [LogInfo Completed] @ shown, r)))"

section \<open>Properties\<close>

subsection \<open>Characters and the tokenizer\<close>

lemma in_punctuation:
  "c \<in> set punctuation \<longleftrightarrow>
     (33 \<le> c \<and> c \<le> 47) \<or> (58 \<le> c \<and> c \<le> 64) \<or> (91 \<le> c \<and> c \<le> 96) \<or> (123 \<le> c \<and> c \<le> 126)"
  unfolding punctuation_def by (simp; arith)

lemma isspace_not_punctuation: "isspace c \<Longrightarrow> c \<notin> set punctuation"
  unfolding in_punctuation isspace_def by arith

lemma remove_punctuation_Nil: "remove_punctuation [] = []"
  by (simp add: remove_punctuation_def)

lemma remove_punctuation_Cons:
  "remove_punctuation (c # cs) =
     (if c \<in> set punctuation then remove_punctuation cs else c # remove_punctuation cs)"
  by (simp add: remove_punctuation_def)

lemma remove_punctuation_append:
  "remove_punctuation (u @ v) = remove_punctuation u @ remove_punctuation v"
  by (simp add: remove_punctuation_def)

lemma split_run_nonempty: "t \<in> set (split_run sep w cs) \<Longrightarrow> t \<noteq> []"
  by (induction cs arbitrary: w) (auto split: if_splits)

lemma split_run_no_sep:
  "t \<in> set (split_run sep w cs) \<Longrightarrow> \<forall>c\<in>set w. \<not> sep c \<Longrightarrow> c \<in> set t \<Longrightarrow> \<not> sep c"
proof (induction cs arbitrary: w)
  case Nil
  then show ?case by (auto split: if_splits)
next
  case (Cons a cs)
  show ?case
  proof (cases "sep a")
    case True
    with Cons.prems have "t = w \<or> t \<in> set (split_run sep [] cs)"
      by (auto split: if_splits)
    then show ?thesis
      using Cons.IH [of "[]"] Cons.prems by auto
  next
    case False
    with Cons.prems have "t \<in> set (split_run sep (w @ [a]) cs)" by simp
    then show ?thesis
      using Cons.IH [of "w @ [a]"] Cons.prems False by auto
  qed
qed

lemma concat_split_run: "concat (split_run sep w cs) = w @ filter (\<lambda>c. \<not> sep c) cs"
  by (induction cs arbitrary: w) auto

lemma split_run_sep_run:
  "s \<noteq> [] \<Longrightarrow> \<forall>c\<in>set s. sep c \<Longrightarrow>
   split_run sep w (s @ b) = (if w = [] then [] else [w]) @ split_run sep [] b"
proof (induction s arbitrary: w)
  case Nil
  then show ?case by simp
next
  case (Cons a s)
  show ?case
  proof (cases "s = []")
    case True
    with Cons.prems show ?thesis by simp
  next
    case False
    with Cons.prems Cons.IH [of "[]"] show ?thesis by simp
  qed
qed

lemma split_run_boundary:
  "s \<noteq> [] \<Longrightarrow> \<forall>c\<in>set s. sep c \<Longrightarrow>
   split_run sep w (a @ s @ b) = split_run sep w a @ split_run sep [] b"
proof (induction a arbitrary: w)
  case Nil
  then show ?case by (simp add: split_run_sep_run)
next
  case (Cons c a)
  then show ?case by simp
qed

lemma shuffle_function_Nil: "shuffle_function [] = []"
  by (simp add: shuffle_function_def)

lemma shuffle_function_snoc:
  "shuffle_function (xs @ [(k, v)]) = shuffle_append k v (shuffle_function xs)"
  by (simp add: shuffle_function_def)

lemma keys_shuffle_append:
  "map fst (shuffle_append k v g) =
     (if k \<in> set (map fst g) then map fst g else map fst g @ [k])"
  by (induction g) (auto simp: rev_image_eqI)

lemma map_of_shuffle_append:
  "map_of (shuffle_append k v g) k' =
     (if k' = k then Some (case map_of g k of None \<Rightarrow> [v] | Some vs \<Rightarrow> vs @ [v])
      else map_of g k')"
  by (induction g) auto

lemma total_shuffle_append:
  "sum_list (map (\<lambda>item. sum_list (snd item)) (shuffle_append k v g)) =
   sum_list (map (\<lambda>item. sum_list (snd item)) g) + (v::int)"
  by (induction g) auto

lemma keys_shuffle_function: "set (map fst (shuffle_function xs)) = set (map fst xs)"
proof (induction xs rule: rev_induct)
  case Nil
  then show ?case by (simp add: shuffle_function_Nil)
next
  case (snoc x xs)
  obtain k v where x: "x = (k, v)" by (cases x)
  show ?case
    using snoc unfolding x shuffle_function_snoc keys_shuffle_append
    by auto
qed

lemma distinct_shuffle_function: "distinct (map fst (shuffle_function xs))"
proof (induction xs rule: rev_induct)
  case Nil
  then show ?case by (simp add: shuffle_function_Nil)
next
  case (snoc x xs)
  obtain k v where x: "x = (k, v)" by (cases x)
  show ?case
    using snoc unfolding x shuffle_function_snoc keys_shuffle_append
    by auto
qed

lemma map_of_shuffle_function:
  "map_of (shuffle_function xs) k =
     (if k \<in> set (map fst xs) then Some (map snd (filter (\<lambda>p. fst p = k) xs)) else None)"
proof (induction xs rule: rev_induct)
  case Nil
  then show ?case by (simp add: shuffle_function_Nil)
next
  case (snoc x xs)
  obtain k' v where x: "x = (k', v)" by (cases x)
  show ?case
    unfolding x shuffle_function_snoc map_of_shuffle_append
    using snoc by (auto simp: filter_empty_conv)
qed

lemma total_shuffle_function:
  "sum_list (map (\<lambda>item. sum_list (snd item)) (shuffle_function xs)) =
   sum_list (map snd xs :: int list)"
proof (induction xs rule: rev_induct)
  case Nil
  then show ?case by (simp add: shuffle_function_Nil)
next
  case (snoc x xs)
  obtain k v where x: "x = (k, v)" by (cases x)
  show ?case
    unfolding x shuffle_function_snoc total_shuffle_append using snoc by simp
qed

lemma dict_set_fresh: "key \<notin> fst ` set d \<Longrightarrow> dict_set key v d = d @ [(key, v)]"
  by (induction d) auto

lemma dict_distinct: "distinct (map fst pairs) \<Longrightarrow> dict pairs = pairs"
proof (induction pairs rule: rev_induct)
  case Nil
  then show ?case by (simp add: dict_def)
next
  case (snoc x xs)
  obtain k v where x: "x = (k, v)" by (cases x)
  from snoc.prems have d: "distinct (map fst xs)" and f: "k \<notin> fst ` set xs"
    by (auto simp: x)
  have "dict (xs @ [x]) = dict_set k v (dict xs)"
    by (simp add: dict_def x)
  also have "\<dots> = dict_set k v xs" using snoc.IH d by simp
  also have "\<dots> = xs @ [x]" using f by (simp add: dict_set_fresh x)
  finally show ?case .
qed

lemma keys_reduce: "map fst (map reduce_function g) = map fst g"
  by (induction g) (auto simp: reduce_function_def)

lemma map_of_reduce:
  "map_of (map reduce_function g) k = map_option sum_list (map_of g k)"
  by (induction g) (auto simp: reduce_function_def)

lemma map_reduce_eq:
  "map_reduce lower text =
     map reduce_function (shuffle_function (map (map_function lower) (tokenize text)))"
proof -
  let ?g = "shuffle_function (map (map_function lower) (tokenize text))"
  have "distinct (map fst (map reduce_function ?g))"
    unfolding keys_reduce by (rule distinct_shuffle_function)
  then have "dict (map reduce_function ?g) = map reduce_function ?g"
    by (rule dict_distinct)
  then show ?thesis
    by (simp add: map_reduce_def tokenize_def)
qed

subsection \<open>Evaluation on concrete texts\<close>

lemma cps_Nil: "cps [] = []"
  by (simp add: cps_def)

lemma cps_Cons: "cps (c # s) = of_char c # cps s"
  by (simp add: cps_def)

lemmas eval_text = cps_Nil cps_Cons remove_punctuation_Nil remove_punctuation_Cons
  in_punctuation isspace_def tokenize_def split_def

lemma tokenize_cat:
  "tokenize (cps ''The cat sat. The cat ran!'') =
     [cps ''The'', cps ''cat'', cps ''sat'', cps ''The'', cps ''cat'', cps ''ran'']"
  by (simp add: eval_text)

lemma map_reduce_cat:
  "map_reduce ascii_lower (cps ''The cat sat. The cat ran!'') =
     [(cps ''the'', 2), (cps ''cat'', 2), (cps ''sat'', 1), (cps ''ran'', 1)]"
  unfolding map_reduce_eq tokenize_cat
  by (simp add: map_function_def shuffle_function_def reduce_function_def ascii_lower_def
      cps_Nil cps_Cons)

subsection \<open>The word counts\<close>

lemma sum_mapped:
  "sum_list (map snd (map (map_function lower) ws)) = int (length ws)"
  by (induction ws) (auto simp: map_function_def)

lemma count_mapped:
  "sum_list (map snd (filter (\<lambda>p. fst p = k) (map (map_function lower) ws))) =
   int (length (filter (\<lambda>w. lower w = k) ws))"
  by (induction ws) (auto simp: map_function_def)

lemma sum_reduce:
  "sum_list (map snd (map reduce_function g)) = sum_list (map (\<lambda>item. sum_list (snd item)) g)"
  by (induction g) (auto simp: reduce_function_def)

lemma map_of_map_reduce:
  "map_of (map_reduce lower text) k =
     (if k \<in> set (map lower (tokenize text))
      then Some (int (length (filter (\<lambda>w. lower w = k) (tokenize text)))) else None)"
proof -
  have keys: "map fst (map (map_function lower) (tokenize text)) = map lower (tokenize text)"
    by (simp add: map_function_def)
  show ?thesis
    unfolding map_reduce_eq map_of_reduce map_of_shuffle_function keys
    by (simp add: count_mapped)
qed

lemma distinct_map_reduce: "distinct (map fst (map_reduce lower text))"
  unfolding map_reduce_eq keys_reduce by (rule distinct_shuffle_function)

lemma map_reduce_empty: "map_reduce lower [] = []"
  by (simp add: map_reduce_def split_def remove_punctuation_Nil shuffle_function_Nil dict_def)

text \<open>
  Claim C1. For every text and every key \<open>k\<close> of the dictionary that \<open>map_reduce\<close>
  returns, the value at \<open>k\<close> is the number of tokens of the text (punctuation removed,
  split at whitespace) whose lowercase form is \<open>k\<close>; the dictionary of the empty text
  is empty.
\<close>

theorem map_reduce_value_is_occurrence_count:
  "(\<forall>(k, n) \<in> set (map_reduce lower text).
      n = int (length (filter (\<lambda>w. lower w = k) (tokenize text)))) \<and>
   map_reduce lower [] = []"
proof
  show "\<forall>(k, n) \<in> set (map_reduce lower text).
      n = int (length (filter (\<lambda>w. lower w = k) (tokenize text)))"
  proof clarify
    fix k n
    assume "(k, n) \<in> set (map_reduce lower text)"
    then have "map_of (map_reduce lower text) k = Some n"
      using distinct_map_reduce by simp
    then show "n = int (length (filter (\<lambda>w. lower w = k) (tokenize text)))"
      unfolding map_of_map_reduce by (simp split: if_splits)
  qed
  show "map_reduce lower [] = []"
    by (rule map_reduce_empty)
qed

theorem map_reduce_value_is_occurrence_count_witness:
  "(cps ''the'', 2) \<in> set (map_reduce ascii_lower (cps ''The cat sat. The cat ran!'')) \<and>
   (2::int) = int (length (filter (\<lambda>w. ascii_lower w = cps ''the'')
                     (tokenize (cps ''The cat sat. The cat ran!''))))"
proof -
  have m: "(cps ''the'', 2) \<in> set (map_reduce ascii_lower (cps ''The cat sat. The cat ran!''))"
    unfolding map_reduce_cat by simp
  with map_reduce_value_is_occurrence_count [of ascii_lower "cps ''The cat sat. The cat ran!''"]
  show ?thesis
    by blast
qed

text \<open>
  Claim C2. For every text, the values of the dictionary that \<open>map_reduce\<close> returns
  add up to the number of tokens of the text.
\<close>

theorem map_reduce_values_sum_to_token_count:
  "sum_list (map snd (map_reduce lower text)) = int (length (tokenize text))"
  unfolding map_reduce_eq sum_reduce total_shuffle_function by (rule sum_mapped)

theorem map_reduce_values_sum_to_token_count_witness:
  "sum_list (map snd (map_reduce ascii_lower (cps ''The cat sat. The cat ran!''))) = 6"
  using map_reduce_values_sum_to_token_count [of ascii_lower "cps ''The cat sat. The cat ran!''"]
  unfolding tokenize_cat by simp

subsection \<open>The tokens\<close>

lemma remove_punctuation_run:
  assumes "\<forall>c\<in>set s. isspace c \<or> c \<in> set punctuation" and "\<exists>c\<in>set s. isspace c"
  shows "remove_punctuation s \<noteq> [] \<and> (\<forall>c\<in>set (remove_punctuation s). isspace c)"
proof
  from assms(2) obtain c where "c \<in> set s" "isspace c" by blast
  then have "c \<in> set (remove_punctuation s)"
    by (simp add: remove_punctuation_def isspace_not_punctuation)
  then show "remove_punctuation s \<noteq> []" by auto
  show "\<forall>c\<in>set (remove_punctuation s). isspace c"
    using assms(1) by (auto simp: remove_punctuation_def)
qed

lemma remove_punctuation_only:
  "\<forall>c\<in>set p. c \<in> set punctuation \<Longrightarrow> remove_punctuation p = []"
  by (simp add: remove_punctuation_def filter_empty_conv)

lemma tokenize_boundary:
  assumes "\<forall>c\<in>set s. isspace c \<or> c \<in> set punctuation" and "\<exists>c\<in>set s. isspace c"
  shows "tokenize (u @ s @ v) = tokenize u @ tokenize v"
  using remove_punctuation_run [OF assms]
  by (simp add: tokenize_def split_def remove_punctuation_append split_run_boundary)

lemma tokenize_punctuation_run:
  "\<forall>c\<in>set p. c \<in> set punctuation \<Longrightarrow> tokenize (u @ p @ v) = tokenize (u @ v)"
  by (simp add: tokenize_def remove_punctuation_append remove_punctuation_only)

lemma tokens_clean:
  assumes "w \<in> set (tokenize text)"
  shows "w \<noteq> [] \<and> (\<forall>c\<in>set w. \<not> isspace c \<and> c \<notin> set punctuation)"
proof -
  from assms have w: "w \<in> set (split_run isspace [] (remove_punctuation text))"
    by (simp add: tokenize_def split_def)
  have 1: "w \<noteq> []" using w by (rule split_run_nonempty)
  have 2: "\<not> isspace c" if "c \<in> set w" for c
    using split_run_no_sep [OF w _ that] by simp
  have "set (concat (split_run isspace [] (remove_punctuation text))) \<subseteq> set (remove_punctuation text)"
    unfolding concat_split_run by auto
  with w have "set w \<subseteq> set (remove_punctuation text)" by auto
  then have 3: "c \<notin> set punctuation" if "c \<in> set w" for c
    using that by (auto simp: remove_punctuation_def)
  from 1 2 3 show ?thesis by blast
qed

lemma concat_tokenize:
  "concat (tokenize text) = filter (\<lambda>c. \<not> isspace c \<and> c \<notin> set punctuation) text"
  by (simp add: tokenize_def split_def concat_split_run remove_punctuation_def conj_commute)

lemma split_run_clean:
  "\<forall>c\<in>set cs. \<not> sep c \<Longrightarrow> split_run sep w cs = (if w @ cs = [] then [] else [w @ cs])"
  by (induction cs arbitrary: w) auto

lemma split_run_all_sep:
  "\<forall>c\<in>set s. sep c \<Longrightarrow> split_run sep w s = (if w = [] then [] else [w])"
  by (induction s arbitrary: w) auto

lemma remove_punctuation_clean:
  "\<forall>c\<in>set w. c \<notin> set punctuation \<Longrightarrow> remove_punctuation w = w"
  by (simp add: remove_punctuation_def)

lemma tokenize_word:
  assumes "w \<noteq> []" and "\<forall>c\<in>set w. \<not> isspace c \<and> c \<notin> set punctuation"
  shows "tokenize w = [w]"
proof -
  have "remove_punctuation w = w"
    using assms(2) by (simp add: remove_punctuation_clean)
  moreover have "split_run isspace [] w = [w]"
    using assms by (simp add: split_run_clean)
  ultimately show ?thesis
    by (simp add: tokenize_def split_def)
qed

lemma tokenize_separators:
  assumes "\<forall>c\<in>set s. isspace c \<or> c \<in> set punctuation"
  shows "tokenize s = []"
proof -
  have "\<forall>c\<in>set (remove_punctuation s). isspace c"
    using assms by (auto simp: remove_punctuation_def)
  then show ?thesis
    by (simp add: tokenize_def split_def split_run_all_sep)
qed

text \<open>
  Claim C3, as the program has it. The tokenizer deletes the punctuation characters
  and splits at runs of whitespace. Every token is non-empty and has neither
  whitespace nor punctuation in it, and the tokens, one after the other, are the
  remaining characters of the text in their order. A non-empty run of characters
  that are neither whitespace nor punctuation is one token, and a text of whitespace
  and punctuation only has no token. A run of whitespace and punctuation characters
  with at least one whitespace character in it is one split boundary. A run of
  punctuation characters alone is no boundary: it is deleted and the characters
  around it join.
\<close>

theorem tokenize_spec:
  "(\<forall>t\<in>set (tokenize text). t \<noteq> [] \<and> (\<forall>c\<in>set t. \<not> isspace c \<and> c \<notin> set punctuation)) \<and>
   concat (tokenize text) = filter (\<lambda>c. \<not> isspace c \<and> c \<notin> set punctuation) text \<and>
   (w \<noteq> [] \<and> (\<forall>c\<in>set w. \<not> isspace c \<and> c \<notin> set punctuation) \<longrightarrow> tokenize w = [w]) \<and>
   ((\<forall>c\<in>set s. isspace c \<or> c \<in> set punctuation) \<longrightarrow> tokenize s = []) \<and>
   ((\<forall>c\<in>set s. isspace c \<or> c \<in> set punctuation) \<and> (\<exists>c\<in>set s. isspace c) \<longrightarrow>
      tokenize (u @ s @ v) = tokenize u @ tokenize v) \<and>
   ((\<forall>c\<in>set p. c \<in> set punctuation) \<longrightarrow> tokenize (u @ p @ v) = tokenize (u @ v))"
  using tokens_clean concat_tokenize tokenize_word tokenize_separators tokenize_boundary
    tokenize_punctuation_run
  by blast

theorem tokenize_spec_witness:
  "list_all (\<lambda>c. isspace c \<or> c \<in> set punctuation) (cps '', '') \<and>
   list_ex isspace (cps '', '') \<and>
   list_all (\<lambda>c. c \<in> set punctuation) (cps '',,'') \<and>
   cps ''ab'' \<noteq> [] \<and>
   list_all (\<lambda>c. \<not> isspace c \<and> c \<notin> set punctuation) (cps ''ab'') \<and>
   cps ''a'' \<in> set (tokenize (cps ''a, b'')) \<and>
   cps ''a'' \<noteq> [] \<and>
   list_all (\<lambda>c. \<not> isspace c \<and> c \<notin> set punctuation) (cps ''a'') \<and>
   concat (tokenize (cps ''a, b'')) =
     filter (\<lambda>c. \<not> isspace c \<and> c \<notin> set punctuation) (cps ''a, b'') \<and>
   tokenize (cps ''ab'') = [cps ''ab''] \<and>
   tokenize (cps '', '') = [] \<and>
   tokenize (cps ''a'' @ cps '', '' @ cps ''b'') = tokenize (cps ''a'') @ tokenize (cps ''b'') \<and>
   tokenize (cps ''a'' @ cps '',,'' @ cps ''b'') = tokenize (cps ''a'' @ cps ''b'')"
proof -
  have h1: "\<forall>c\<in>set (cps '', ''). isspace c \<or> c \<in> set punctuation"
    by (simp add: eval_text)
  have h2: "\<exists>c\<in>set (cps '', ''). isspace c"
    by (simp add: eval_text)
  have h3: "\<forall>c\<in>set (cps '',,''). c \<in> set punctuation"
    by (simp add: eval_text)
  have h4: "cps ''a'' \<in> set (tokenize (cps ''a, b''))"
    by (simp add: eval_text)
  have h5: "cps ''ab'' \<noteq> []"
    by (simp add: cps_Cons)
  have h6: "\<forall>c\<in>set (cps ''ab''). \<not> isspace c \<and> c \<notin> set punctuation"
    by (simp add: eval_text)
  from h1 h2 h3 h4 h5 h6
    tokenize_spec [of "cps ''a, b''" "cps ''ab''" "cps '', ''" "cps ''a''" "cps ''b''"
      "cps '',,''"]
  show ?thesis
    unfolding list_all_iff list_ex_iff by blast
qed

text \<open>
  Claim C3, as it is written, makes every run of punctuation a split boundary
  (\<open>boundary_tokens\<close>). The text \<open>a,,b\<close> has the one token \<open>ab\<close>.
\<close>

theorem punctuation_run_is_no_boundary: "tokenize (cps ''a,,b'') = [cps ''ab''] \<and>
   boundary_tokens (cps ''a,,b'') = [cps ''a'', cps ''b''] \<and>
   tokenize (cps ''a,,b'') \<noteq> boundary_tokens (cps ''a,,b'')"
  by (simp add: eval_text boundary_tokens_def)

subsection \<open>The order of stripping and lowercasing\<close>

lemma count_list_map:
  "count_list (map f ws) k = length (filter (\<lambda>w. f w = k) ws)"
  by (induction ws) auto

text \<open>
  Claim C4. The mapper pairs the lowercase form of its word with 1, and the
  dictionary of \<open>map_reduce\<close> counts the words of the list obtained by deleting the
  punctuation of the text as it is, splitting, and then lowercasing each word: a key
  has its number of occurrences in that list, and nothing else is a key.
\<close>

theorem map_reduce_strips_then_lowers:
  "map_function lower w = (lower w, 1) \<and>
   map_of (map_reduce lower text) k =
     (let ks = map lower (split (remove_punctuation text))
      in if k \<in> set ks then Some (int (count_list ks k)) else None)"
  unfolding map_of_map_reduce count_list_map Let_def
  by (simp add: map_function_def tokenize_def)

theorem map_reduce_strips_then_lowers_witness:
  "map_function ascii_lower (cps ''The'') = (cps ''the'', 1) \<and>
   map_of (map_reduce ascii_lower (cps ''The cat sat. The cat ran!'')) (cps ''cat'') = Some 2"
proof -
  have sp: "split (remove_punctuation (cps ''The cat sat. The cat ran!'')) =
     [cps ''The'', cps ''cat'', cps ''sat'', cps ''The'', cps ''cat'', cps ''ran'']"
    using tokenize_cat by (simp add: tokenize_def)
  show ?thesis
    using map_reduce_strips_then_lowers
      [of ascii_lower "cps ''The''" "cps ''The cat sat. The cat ran!''" "cps ''cat''"]
    unfolding sp by (simp add: ascii_lower_def cps_Nil cps_Cons)
qed

subsection \<open>Order of the mapped pairs\<close>

lemma sum_filter_perm:
  fixes xs ys :: "('k \<times> int) list"
  assumes "mset xs = mset ys"
  shows "sum_list (map snd (filter P xs)) = sum_list (map snd (filter P ys))"
proof -
  have "mset (filter P xs) = mset (filter P ys)"
    using assms by (simp only: mset_filter)
  then have "mset (map snd (filter P xs)) = mset (map snd (filter P ys))"
    by (simp only: mset_map)
  then show ?thesis
    by (metis sum_mset_sum_list)
qed

lemma map_of_reduced:
  "map_of (map reduce_function (shuffle_function xs)) k =
     (if k \<in> set (map fst xs) then Some (sum_list (map snd (filter (\<lambda>p. fst p = k) xs)))
      else None)"
  unfolding map_of_reduce map_of_shuffle_function by simp

lemma dict_reduced:
  "dict (map reduce_function (shuffle_function xs)) = map reduce_function (shuffle_function xs)"
  by (rule dict_distinct) (simp only: keys_reduce distinct_shuffle_function)

text \<open>
  Claim C5. Grouping and reduction do not depend on the order of the mapped pairs:
  for every list of (key, count) pairs and every permutation of it,
  \<open>shuffle_function\<close> followed by \<open>reduce_function\<close> on each group gives the same
  dictionary of totals, as a set of key/value pairs.
\<close>

theorem shuffle_reduce_order_independent:
  fixes xs ys :: "('k \<times> int) list"
  assumes "mset xs = mset ys"
  shows "set (dict (map reduce_function (shuffle_function xs))) =
         set (dict (map reduce_function (shuffle_function ys)))"
proof -
  let ?r = "\<lambda>zs :: ('k \<times> int) list. map reduce_function (shuffle_function zs)"
  from assms have "set xs = set ys" by (rule mset_eq_setD)
  then have keys: "set (map fst xs) = set (map fst ys)" by simp
  have "map_of (?r xs) = map_of (?r ys)"
  proof
    fix k
    show "map_of (?r xs) k = map_of (?r ys) k"
      unfolding map_of_reduced keys
      using sum_filter_perm [OF assms, of "\<lambda>p. fst p = k"] by simp
  qed
  moreover have "distinct (map fst (?r xs))" "distinct (map fst (?r ys))"
    by (simp_all only: keys_reduce distinct_shuffle_function)
  ultimately have "set (?r xs) = set (?r ys)"
    by (simp add: map_of_inject_set)
  then show ?thesis
    unfolding dict_reduced .
qed

theorem shuffle_reduce_order_independent_witness:
  "mset [(''a'', 1), (''b'', 2), (''a'', 3::int)] = mset [(''b'', 2), (''a'', 3), (''a'', 1)] \<and>
   set (dict (map reduce_function (shuffle_function [(''a'', 1), (''b'', 2), (''a'', 3::int)]))) =
   set (dict (map reduce_function (shuffle_function [(''b'', 2), (''a'', 3), (''a'', 1)]))) \<and>
   dict (map reduce_function (shuffle_function [(''a'', 1), (''b'', 2), (''a'', 3::int)])) =
     [(''a'', 4), (''b'', 2)] \<and>
   dict (map reduce_function (shuffle_function [(''b'', 2), (''a'', 3), (''a'', 1::int)])) =
     [(''b'', 2), (''a'', 4)]"
proof -
  have h: "mset [(''a'', 1), (''b'', 2), (''a'', 3::int)] = mset [(''b'', 2), (''a'', 3), (''a'', 1)]"
    by simp
  have e: "dict (map reduce_function (shuffle_function [(''a'', 1), (''b'', 2), (''a'', 3::int)])) =
     [(''a'', 4), (''b'', 2)]"
    "dict (map reduce_function (shuffle_function [(''b'', 2), (''a'', 3), (''a'', 1::int)])) =
     [(''b'', 2), (''a'', 4)]"
    by (simp_all add: shuffle_function_def reduce_function_def dict_def)
  from h e shuffle_reduce_order_independent [OF h] show ?thesis by blast
qed

subsection \<open>The most frequent words\<close>

lemma length_slice_to:
  "length (slice_to n xs) =
     (if n < 0 then nat (int (length xs) + n) else min (nat n) (length xs))"
  by (auto simp: slice_to_def)

lemma set_slice_to: "set (slice_to n xs) \<subseteq> set xs"
  by (auto simp: slice_to_def dest: in_set_takeD)

lemma sorted_desc:
  "sorted_wrt (\<lambda>a b. snd b \<le> snd a) (sort_key (\<lambda>item. - snd item) (word_counts :: ('k \<times> int) list))"
proof -
  have "sorted (map (\<lambda>item. - snd item) (sort_key (\<lambda>item. - snd item) word_counts))"
    by (rule sorted_sort_key)
  then show ?thesis
    by (simp add: sorted_map)
qed

lemma sorted_wrt_slice_to: "sorted_wrt R xs \<Longrightarrow> sorted_wrt R (slice_to n xs)"
  by (simp add: slice_to_def sorted_wrt_take)

lemma distinct_keys_slice_to: "distinct (map fst xs) \<Longrightarrow> distinct (map fst (slice_to n xs))"
  by (simp add: slice_to_def take_map [symmetric] del: take_map)

lemma distinct_keys_sort:
  "distinct (map fst xs) \<Longrightarrow> distinct (map fst (sort_key f xs))"
proof -
  assume d: "distinct (map fst xs)"
  have "mset (map fst (sort_key f xs)) = mset (map fst xs)" by simp
  then show ?thesis using d by (metis mset_eq_imp_distinct_iff)
qed

lemma top_of_sorted:
  assumes "sorted_wrt R xs" and "a \<in> set (slice_to n xs)" and "b \<in> set xs" and "b \<notin> set (slice_to n xs)"
  shows "R a b"
proof -
  have "\<exists>k. slice_to n xs = take k xs"
    by (cases "n < 0") (auto simp: slice_to_def)
  then obtain k where k: "slice_to n xs = take k xs" ..
  have "sorted_wrt R (take k xs @ drop k xs)" using assms(1) by simp
  then have "\<forall>x\<in>set (take k xs). \<forall>y\<in>set (drop k xs). R x y"
    unfolding sorted_wrt_append by blast
  moreover have "b \<in> set (drop k xs)"
    using assms(3,4) k by (metis Un_iff append_take_drop_id set_append)
  ultimately show ?thesis using assms(2) k by simp
qed

text \<open>For a negative \<open>top_n\<close> the slice leaves out the last entries of the sorted list.\<close>

lemma sorted_words_negative:
  "n < 0 \<Longrightarrow> int (length (sorted_words word_counts n)) = max 0 (int (length word_counts) + n)"
  by (simp add: sorted_words_def length_slice_to)

lemma sorted_words_sat:
  "sorted_words [(cps ''sat'', 1), (cps ''the'', 2), (cps ''cat'', 2)] 2 =
     [(cps ''the'', 2), (cps ''cat'', 2)]"
  "sorted_words [(cps ''sat'', 1), (cps ''the'', 2), (cps ''cat'', 2)] 5 =
     [(cps ''the'', 2), (cps ''cat'', 2), (cps ''sat'', 1)]"
  by (simp_all add: sorted_words_def slice_to_def cps_Nil cps_Cons)

text \<open>
  Claim C6. For every dictionary of word counts and every number \<open>n\<close> of words, the
  selection has exactly \<open>min n (size of the dictionary)\<close> entries, by count
  descending; its entries are entries of the dictionary and no key is repeated; a
  dictionary of at most \<open>n\<close> entries (so also of fewer than \<open>n\<close>) is returned whole.
  The selection is of the most frequent words: no entry left out has a greater count
  than an entry selected.
\<close>

theorem sorted_words_top_n:
  assumes "distinct (map fst word_counts)"
  shows "length (sorted_words word_counts (int n)) = min n (length word_counts) \<and>
    sorted_wrt (\<lambda>a b. snd b \<le> snd a) (sorted_words word_counts (int n)) \<and>
    set (sorted_words word_counts (int n)) \<subseteq> set word_counts \<and>
    distinct (map fst (sorted_words word_counts (int n))) \<and>
    (length word_counts \<le> n \<longrightarrow> mset (sorted_words word_counts (int n)) = mset word_counts) \<and>
    (\<forall>a\<in>set (sorted_words word_counts (int n)).
       \<forall>b\<in>set word_counts - set (sorted_words word_counts (int n)). snd b \<le> snd a)"
proof (intro conjI impI ballI)
  show "length (sorted_words word_counts (int n)) = min n (length word_counts)"
    by (simp add: sorted_words_def length_slice_to)
  show "sorted_wrt (\<lambda>a b. snd b \<le> snd a) (sorted_words word_counts (int n))"
    unfolding sorted_words_def by (intro sorted_wrt_slice_to sorted_desc)
  show "set (sorted_words word_counts (int n)) \<subseteq> set word_counts"
    unfolding sorted_words_def
    using set_slice_to [of "int n" "sort_key (\<lambda>item. - snd item) word_counts"] by simp
  show "distinct (map fst (sorted_words word_counts (int n)))"
    unfolding sorted_words_def by (intro distinct_keys_slice_to distinct_keys_sort assms)
  show "mset (sorted_words word_counts (int n)) = mset word_counts"
    if "length word_counts \<le> n"
    using that by (simp add: sorted_words_def slice_to_def)
  fix a b
  assume a: "a \<in> set (sorted_words word_counts (int n))"
    and b: "b \<in> set word_counts - set (sorted_words word_counts (int n))"
  from b have b1: "b \<in> set (sort_key (\<lambda>item. - snd item) word_counts)"
    and b2: "b \<notin> set (slice_to (int n) (sort_key (\<lambda>item. - snd item) word_counts))"
    by (simp_all add: sorted_words_def)
  from a have a1: "a \<in> set (slice_to (int n) (sort_key (\<lambda>item. - snd item) word_counts))"
    by (simp add: sorted_words_def)
  show "snd b \<le> snd a"
    using top_of_sorted [OF sorted_desc a1 b1 b2] .
qed

theorem sorted_words_top_n_witness:
  "distinct (map fst [(cps ''sat'', 1::int), (cps ''the'', 2), (cps ''cat'', 2)]) \<and>
   sorted_words [(cps ''sat'', 1), (cps ''the'', 2), (cps ''cat'', 2)] (int 2) =
     [(cps ''the'', 2), (cps ''cat'', 2)] \<and>
   length (sorted_words [(cps ''sat'', 1), (cps ''the'', 2), (cps ''cat'', 2)] (int 2)) =
     min 2 (length [(cps ''sat'', 1::int), (cps ''the'', 2), (cps ''cat'', 2)]) \<and>
   length [(cps ''sat'', 1::int), (cps ''the'', 2), (cps ''cat'', 2)] \<le> 5 \<and>
   mset (sorted_words [(cps ''sat'', 1), (cps ''the'', 2), (cps ''cat'', 2)] (int 5)) =
     mset [(cps ''sat'', 1), (cps ''the'', 2), (cps ''cat'', 2)]"
proof -
  have d: "distinct (map fst [(cps ''sat'', 1::int), (cps ''the'', 2), (cps ''cat'', 2)])"
    by (simp add: cps_Nil cps_Cons)
  have l: "length [(cps ''sat'', 1::int), (cps ''the'', 2), (cps ''cat'', 2)] \<le> 5"
    by simp
  have e: "sorted_words [(cps ''sat'', 1), (cps ''the'', 2), (cps ''cat'', 2)] (int 2) =
     [(cps ''the'', 2), (cps ''cat'', 2)]"
    using sorted_words_sat(1) by simp
  from d l e sorted_words_top_n [OF d, of 2] sorted_words_top_n [OF d, of 5]
  show ?thesis by blast
qed

subsection \<open>The worker pools and repeated runs\<close>

lemma length_run_pool: "length (run_pool f xs sched slots) = length slots"
  by (induction sched arbitrary: slots) auto

lemma nth_run_pool:
  "i < length slots \<Longrightarrow>
   run_pool f xs sched slots ! i = (if i \<in> set sched then Some (f (xs ! i)) else slots ! i)"
  by (induction sched arbitrary: slots) (auto simp: nth_list_update)

lemma results_Some: "results (map Some ys) = Some ys"
  by (induction ys) auto

lemma executor_map_complete:
  assumes "complete_schedule sched (length xs)"
  shows "executor_map sched f xs = Some (map f xs)"
proof -
  have "run_pool f xs sched (replicate (length xs) None) = map Some (map f xs)"
  proof (rule nth_equalityI)
    show "length (run_pool f xs sched (replicate (length xs) None)) = length (map Some (map f xs))"
      by (simp add: length_run_pool)
    fix i
    assume "i < length (run_pool f xs sched (replicate (length xs) None))"
    then have i: "i < length xs" by (simp add: length_run_pool)
    with assms have "i \<in> set sched" by (simp add: complete_schedule_def)
    with i show "run_pool f xs sched (replicate (length xs) None) ! i = map Some (map f xs) ! i"
      by (simp add: nth_run_pool)
  qed
  then show ?thesis
    by (simp only: executor_map_def results_Some)
qed

lemma map_reduce_pool_complete:
  assumes "complete_schedule sched1 (length (tokenize text))"
    and "complete_schedule sched2
           (length (shuffle_function (map (map_function lower) (tokenize text))))"
  shows "map_reduce_pool lower sched1 sched2 text = Some (map_reduce lower text)"
proof -
  have 1: "executor_map sched1 (map_function lower) (split (remove_punctuation text)) =
        Some (map (map_function lower) (split (remove_punctuation text)))"
    using assms(1) unfolding tokenize_def by (rule executor_map_complete)
  have 2: "executor_map sched2 reduce_function
          (shuffle_function (map (map_function lower) (split (remove_punctuation text)))) =
        Some (map reduce_function
          (shuffle_function (map (map_function lower) (split (remove_punctuation text)))))"
    using assms(2) unfolding tokenize_def by (rule executor_map_complete)
  show ?thesis
    by (simp add: map_reduce_pool_def map_reduce_def 1 2)
qed

lemma tokenize_bab: "tokenize (cps ''b a b'') = [cps ''b'', cps ''a'', cps ''b'']"
  by (simp add: eval_text)

lemma shuffle_mapped_bab: "shuffle_function (map (map_function ascii_lower) [cps ''b'', cps ''a'', cps ''b'']) =
   [(cps ''b'', [1, 1]), (cps ''a'', [1])]"
  by (simp add: shuffle_function_def map_function_def ascii_lower_def cps_Nil cps_Cons)

lemma complete_schedules: "complete_schedule [2, 0, 1] 3" "complete_schedule [0, 1, 2] 3"
  "complete_schedule [1, 0] 2" "complete_schedule [0, 1] 2"
  unfolding complete_schedule_def by (auto simp: lessThan_def)

lemma pool_map_bab:
  "executor_map [2, 0, 1] (map_function ascii_lower) [cps ''b'', cps ''a'', cps ''b''] =
     Some [(cps ''b'', 1), (cps ''a'', 1), (cps ''b'', 1)]"
  by (simp add: executor_map_def numeral_2_eq_2 numeral_3_eq_3 map_function_def ascii_lower_def
      cps_Nil cps_Cons)

lemma shuffle_bab:
  "shuffle_function [(cps ''b'', 1), (cps ''a'', 1), (cps ''b'', 1)] =
     [(cps ''b'', [1, 1]), (cps ''a'', [1])]"
  by (simp add: shuffle_function_def cps_Nil cps_Cons)

lemma pool_reduce_bab:
  "executor_map [1, 0] reduce_function [(cps ''b'', [1, 1]), (cps ''a'', [1])] =
     Some [(cps ''b'', 2), (cps ''a'', 1)]"
  by (simp add: executor_map_def numeral_2_eq_2 reduce_function_def)

lemma map_reduce_pool_bab: "map_reduce_pool ascii_lower [2, 0, 1] [1, 0] (cps ''b a b'') = Some [(cps ''b'', 2), (cps ''a'', 1)]"
proof -
  have sp: "split (remove_punctuation (cps ''b a b'')) = [cps ''b'', cps ''a'', cps ''b'']"
    using tokenize_bab by (simp add: tokenize_def)
  have d: "dict [(cps ''b'', 2::int), (cps ''a'', 1)] = [(cps ''b'', 2), (cps ''a'', 1)]"
    by (simp add: dict_def cps_Nil cps_Cons)
  show ?thesis
    unfolding map_reduce_pool_def sp Let_def pool_map_bab option.case shuffle_bab pool_reduce_bab d
    by (rule refl)
qed

text \<open>
  Claim C8. Two runs of the pipeline on the same text, each with its own order in
  which the workers of its two pools finish, both return, and return the same
  dictionary as a set of key/value pairs.
\<close>

theorem map_reduce_deterministic:
  assumes "complete_schedule s1 (length (tokenize text))"
    and "complete_schedule s2 (length (shuffle_function (map (map_function lower) (tokenize text))))"
    and "complete_schedule s1' (length (tokenize text))"
    and "complete_schedule s2' (length (shuffle_function (map (map_function lower) (tokenize text))))"
  shows "\<exists>r r'. map_reduce_pool lower s1 s2 text = Some r \<and>
           map_reduce_pool lower s1' s2' text = Some r' \<and> set r = set r'"
  using map_reduce_pool_complete [OF assms(1,2)] map_reduce_pool_complete [OF assms(3,4)]
  by simp

theorem map_reduce_deterministic_witness:
  "complete_schedule [2, 0, 1] (length (tokenize (cps ''b a b''))) \<and>
   complete_schedule [1, 0]
     (length (shuffle_function (map (map_function ascii_lower) (tokenize (cps ''b a b''))))) \<and>
   complete_schedule [0, 1, 2] (length (tokenize (cps ''b a b''))) \<and>
   complete_schedule [0, 1]
     (length (shuffle_function (map (map_function ascii_lower) (tokenize (cps ''b a b''))))) \<and>
   map_reduce_pool ascii_lower [2, 0, 1] [1, 0] (cps ''b a b'') =
     Some [(cps ''b'', 2), (cps ''a'', 1)] \<and>
   (\<exists>r r'. map_reduce_pool ascii_lower [2, 0, 1] [1, 0] (cps ''b a b'') = Some r \<and>
      map_reduce_pool ascii_lower [0, 1, 2] [0, 1] (cps ''b a b'') = Some r' \<and> set r = set r')"
proof -
  have n1: "length (tokenize (cps ''b a b'')) = 3"
    by (simp add: tokenize_bab)
  have n2: "length (shuffle_function
      (map (map_function ascii_lower) (tokenize (cps ''b a b'')))) = 2"
    unfolding tokenize_bab shuffle_mapped_bab by simp
  have h1: "complete_schedule [2, 0, 1] (length (tokenize (cps ''b a b'')))"
    unfolding n1 by (rule complete_schedules(1))
  have h3: "complete_schedule [0, 1, 2] (length (tokenize (cps ''b a b'')))"
    unfolding n1 by (rule complete_schedules(2))
  have h2: "complete_schedule [1, 0]
      (length (shuffle_function (map (map_function ascii_lower) (tokenize (cps ''b a b'')))))"
    unfolding n2 by (rule complete_schedules(3))
  have h4: "complete_schedule [0, 1]
      (length (shuffle_function (map (map_function ascii_lower) (tokenize (cps ''b a b'')))))"
    unfolding n2 by (rule complete_schedules(4))
  from h1 h2 h3 h4 map_reduce_pool_bab map_reduce_deterministic [OF h1 h2 h3 h4]
  show ?thesis by blast
qed

subsection \<open>Retrieval, the entry point and the chart\<close>

lemma get_text_failure:
  "outcome = GetRaised e \<or> outcome = StatusRaised e \<Longrightarrow>
   get_text u outcome = ([HttpGet u, LogError (RetrieveFailed e)], None)"
  by (auto simp: get_text_def)

lemma get_text_responded:
  "get_text u (Responded body) = ([HttpGet u, LogInfo (Retrieved u)], Some body)"
  by (simp add: get_text_def)

text \<open>
  When the retrieval fails, the program makes the one request, logs the two errors
  and ends: no \<open>map_reduce\<close> (it would log \<open>Completed\<close>) and no chart.
\<close>

lemma main_retrieval_failure:
  "outcome = GetRaised e \<or> outcome = StatusRaised e \<Longrightarrow>
   main lower outcome =
     ([HttpGet url, LogError (RetrieveFailed e), LogError ExecuteFailed], Inr ())"
  by (auto simp: main_def get_text_def)

lemma visualize_one_word:
  "visualize_top_words [(cps ''a'', 1)] 11 =
     ([Figure, Bar [cps ''a''] [1], Xlabel, Ylabel, Title 11, Xticks, TightLayout, Show,
       LogInfo (Displayed 11)], Inr ())"
  by (simp add: visualize_top_words_def unzip_rows_def sorted_words_def slice_to_def)

text \<open>
  Claim C7 says that retrieval is the only failure path. A retrieved text of
  punctuation only is true as a condition, its dictionary is empty, and
  \<open>visualize_top_words\<close> raises \<open>ValueError\<close>, which nothing catches: the run ends in
  an exception after a successful retrieval.
\<close>

theorem main_raises_on_punctuation_text:
  "main lower (Responded (cps ''!!!'')) =
     ([HttpGet url, LogInfo (Retrieved url), LogInfo Completed], Inl ValueError)"
proof -
  have "tokenize (cps ''!!!'') = []"
    by (simp add: eval_text)
  then have "map_reduce lower (cps ''!!!'') = []"
    by (simp add: map_reduce_eq shuffle_function_Nil)
  moreover have "cps ''!!!'' \<noteq> []"
    by (simp add: cps_Cons)
  ultimately show ?thesis
    by (simp add: main_def get_text_def visualize_top_words_def unzip_rows_def
        sorted_words_def slice_to_def)
qed

text \<open>
  Claim C9. A retrieved text that is empty takes the branch of the failed retrieval:
  the entry point logs the retrieval-failure message and runs neither \<open>map_reduce\<close>
  nor the chart, although \<open>map_reduce\<close> of the empty text is the empty dictionary.
\<close>

theorem main_empty_text_as_failure:
  "main lower (Responded []) =
     ([HttpGet url, LogInfo (Retrieved url), LogError ExecuteFailed], Inr ()) \<and>
   map_reduce lower [] = []"
  by (simp add: main_def get_text_def map_reduce_empty)

text \<open>
  Claim C10. For the empty dictionary and any \<open>top_n\<close>, \<open>visualize_top_words\<close> raises
  at the unpacking of \<open>zip\<close>, before any call of the plotting library.
\<close>

theorem visualize_top_words_empty_raises:
  "visualize_top_words [] top_n = ([], Inl ValueError)"
  by (simp add: visualize_top_words_def unzip_rows_def sorted_words_def slice_to_def)

end
